theory Spec2Isabelle
  imports Main "HOL-Library.Sublist"
begin

section \<open>The lazy task engine of \<open>entangled.loom.lazy\<close>\<close>

text \<open>
  The module defines the outcome classes (\<open>Ok\<close>, \<open>MissingFailure\<close>, \<open>TaskFailure\<close>,
  \<open>DependencyFailure\<close>), the task class \<open>Lazy\<close> and the registry \<open>LazyDB\<close>.
  Tasks are objects with identity: the registry's list and its index point to the same
  objects, and \<open>Ok\<close> and \<open>DependencyFailure\<close> carry the task that produced them. The
  model therefore keeps the task objects in a store addressed by natural numbers.

  Type parameters: \<open>'t\<close> identifiers, \<open>'r\<close> produced values, \<open>'a\<close> the entries of the
  pass-through \<open>*args\<close>, \<open>'w\<close> the state of the collaborators (whatever the bodies of
  \<open>run()\<close> and an overriding \<open>on_missing\<close> read and write).
\<close>

subsection \<open>Exceptions and outcomes\<close>

datatype 't exn =
    MissingDependency
  | TaskFailureExn 't string
  | ValueError string
  | NotImplementedError
  | TypeError
  | AssertionError
  | OtherError string

text \<open>
  \<open>Failure\<close> has the field \<open>task\<close>; \<open>TaskFailure\<close> adds \<open>message\<close>,
  \<open>DependencyFailure\<close> adds \<open>dependent\<close>. \<open>run_after_deps\<close> builds
  \<open>DependencyFailure(self, ...)\<close> and \<open>Ok(self, result)\<close>, so both carry a task
  reference; \<open>LazyDB.run\<close> builds \<open>MissingFailure(t)\<close> from the identifier.
\<close>

datatype ('t, 'r) outcome =
    Ok nat 'r
  | MissingFailure 't
  | TaskFailure 't string
  | DependencyFailure nat "('t, 'r) outcome list"

text \<open>\<open>__bool__\<close>: every \<open>Failure\<close> is falsy, \<open>Ok\<close> is truthy.\<close>

fun truthy :: "('t, 'r) outcome \<Rightarrow> bool" where
  "truthy (Ok task v) = True"
| "truthy (MissingFailure t) = False"
| "truthy (TaskFailure t m) = False"
| "truthy (DependencyFailure task fs) = False"

subsection \<open>Tasks\<close>

text \<open>
  The fields \<open>_lock\<close> and \<open>_result\<close> are \<open>lazy_lock\<close> (whether the guard is held) and
  \<open>lazy_result\<close>. The method \<open>run\<close>, which subclasses override, is the field \<open>run\<close>:
  given the arguments and the collaborators' state it returns a value or raises.
\<close>

record ('t, 'r, 'a, 'w) lazy =
  targets :: "'t list"
  dependencies :: "'t list"
  lazy_lock :: bool
  lazy_result :: "('t, 'r) outcome option"
  run :: "'a list \<Rightarrow> 'w \<Rightarrow> ('t exn + 'r) \<times> 'w"

text \<open>
  The base class's \<open>run(self)\<close> raises \<open>NotImplementedError\<close>. It takes no arguments, so
  \<open>self.run(*args)\<close> with arguments raises \<open>TypeError\<close> instead.
\<close>

definition Lazy_run :: "'a list \<Rightarrow> 'w \<Rightarrow> ('t exn + 'r) \<times> 'w" where
  "Lazy_run args w = (if args = [] then Inl NotImplementedError else Inl TypeError, w)"

text \<open>The constructor: \<open>_lock\<close> and \<open>_result\<close> are not parameters and start free and empty.\<close>

definition Lazy :: "'t list \<Rightarrow> 't list \<Rightarrow> ('a list \<Rightarrow> 'w \<Rightarrow> ('t exn + 'r) \<times> 'w)
    \<Rightarrow> ('t, 'r, 'a, 'w) lazy" where
  "Lazy tgts deps body =
     \<lparr>targets = tgts, dependencies = deps, lazy_lock = False, lazy_result = None, run = body\<rparr>"

definition Lazy_bool :: "('t, 'r, 'a, 'w) lazy \<Rightarrow> bool" where
  "Lazy_bool self = (case lazy_result self of None \<Rightarrow> False | Some res \<Rightarrow> truthy res)"

text \<open>The property \<open>result\<close>.\<close>

definition result :: "('t, 'r, 'a, 'w) lazy \<Rightarrow> 't exn + 'r" where
  "result self =
     (case lazy_result self of
        None \<Rightarrow> Inl (ValueError ''Task has not run yet.'')
      | Some res \<Rightarrow>
          if \<not> truthy res then Inl (ValueError ''Task has failed.'')
          else (case res of Ok task v \<Rightarrow> Inr v | _ \<Rightarrow> Inl AssertionError))"

subsection \<open>The store and the registry\<close>

text \<open>
  \<open>heap\<close> holds the task objects, \<open>next_ref\<close> is the first address not yet handed out.
  \<open>tasks\<close> and \<open>index\<close> are the two fields of \<open>LazyDB\<close>. \<open>run_log\<close> and \<open>missing_log\<close>
  record, in order, each invocation of a task's \<open>run()\<close> and of \<open>on_missing\<close>; the code
  has no such fields, they make "is invoked" observable.
\<close>

record ('t, 'r, 'a, 'w) state =
  heap :: "nat \<Rightarrow> ('t, 'r, 'a, 'w) lazy"
  next_ref :: nat
  tasks :: "nat list"
  index :: "'t \<rightharpoonup> nat"
  world :: 'w
  run_log :: "nat list"
  missing_log :: "'t list"

definition set_lock :: "nat \<Rightarrow> bool \<Rightarrow> ('t, 'r, 'a, 'w) state \<Rightarrow> ('t, 'r, 'a, 'w) state" where
  "set_lock self b s = s\<lparr>heap := (heap s)(self := (heap s self)\<lparr>lazy_lock := b\<rparr>)\<rparr>"

definition set_result :: "nat \<Rightarrow> ('t, 'r) outcome option \<Rightarrow> ('t, 'r, 'a, 'w) state
    \<Rightarrow> ('t, 'r, 'a, 'w) state" where
  "set_result self r s = s\<lparr>heap := (heap s)(self := (heap s self)\<lparr>lazy_result := r\<rparr>)\<rparr>"

text \<open>Constructing a task object: it gets the next address.\<close>

definition new_task :: "('t, 'r, 'a, 'w) lazy \<Rightarrow> ('t, 'r, 'a, 'w) state
    \<Rightarrow> nat \<times> ('t, 'r, 'a, 'w) state" where
  "new_task obj s = (next_ref s, s\<lparr>heap := (heap s)(next_ref s := obj), next_ref := Suc (next_ref s)\<rparr>)"

text \<open>\<open>Lazy.reset\<close>.\<close>

definition Lazy_reset :: "nat \<Rightarrow> ('t, 'r, 'a, 'w) state \<Rightarrow> ('t, 'r, 'a, 'w) state" where
  "Lazy_reset self s = set_result self None s"

subsection \<open>Resolution\<close>

text \<open>
  A call returns a value or raises, and leaves a state: \<open>('t exn + 'v) \<times> state\<close>. A call
  that never returns is \<open>None\<close>.

  \<open>asyncio.gather\<close> starts the resolution of every dependency and delivers the outcomes
  in the order of the dependency list; if one of them raises, the first exception in
  time is raised in the caller and the others are left running. The functions of this
  section follow a single order instead: the dependencies run one after the other, in
  list order, each to completion, and the first exception in list order is raised once
  all have run. The event loop does not in general run the dependencies in that order,
  so these functions say what one resolution computes from given dependency outcomes,
  not how concurrent resolutions interleave. The interleaving of concurrent callers is
  the subject of the model of threads further down.
\<close>

type_synonym ('t, 'r, 'a, 'w) call =
  "('t, 'r, 'a, 'w) state \<Rightarrow> (('t exn + ('t, 'r) outcome) \<times> ('t, 'r, 'a, 'w) state) option"

fun gather :: "('t \<Rightarrow> ('t, 'r, 'a, 'w) call) \<Rightarrow> 't list \<Rightarrow> ('t, 'r, 'a, 'w) state
    \<Rightarrow> (('t exn + ('t, 'r) outcome) list \<times> ('t, 'r, 'a, 'w) state) option" where
  "gather recurse [] s = Some ([], s)"
| "gather recurse (dep # deps) s =
     (case recurse dep s of
        None \<Rightarrow> None
      | Some (r, s1) \<Rightarrow>
          (case gather recurse deps s1 of
             None \<Rightarrow> None
           | Some (rs, s2) \<Rightarrow> Some (r # rs, s2)))"

fun await_all :: "('e + 'v) list \<Rightarrow> 'e + 'v list" where
  "await_all [] = Inr []"
| "await_all (Inl e # rs) = Inl e"
| "await_all (Inr v # rs) = (case await_all rs of Inl e \<Rightarrow> Inl e | Inr vs \<Rightarrow> Inr (v # vs))"

text \<open>
  The \<open>try\<close> block of \<open>run_after_deps\<close>: \<open>run()\<close> is invoked on the collaborators'
  state; \<open>except TaskFailure as f: return f\<close> turns that one exception into the
  outcome, any other exception leaves the block.
\<close>

definition invoke_run :: "nat \<Rightarrow> 'a list \<Rightarrow> ('t, 'r, 'a, 'w) call" where
  "invoke_run self args s =
     (case run (heap s self) args (world s) of
        (res, w) \<Rightarrow>
          let s' = s\<lparr>world := w, run_log := run_log s @ [self]\<rparr> in
          (case res of
             Inr v \<Rightarrow> Some (Inr (Ok self v), s')
           | Inl (TaskFailureExn t m) \<Rightarrow> Some (Inr (TaskFailure t m), s')
           | Inl e \<Rightarrow> Some (Inl e, s')))"

definition run_after_deps :: "nat \<Rightarrow> ('t \<Rightarrow> ('t, 'r, 'a, 'w) call) \<Rightarrow> 'a list
    \<Rightarrow> ('t, 'r, 'a, 'w) call" where
  "run_after_deps self recurse args s =
     (case gather recurse (dependencies (heap s self)) s of
        None \<Rightarrow> None
      | Some (rs, s1) \<Rightarrow>
          (case await_all rs of
             Inl e \<Rightarrow> Some (Inl e, s1)
           | Inr dep_res \<Rightarrow>
               if \<not> list_all truthy dep_res
               then Some (Inr (DependencyFailure self (filter (\<lambda>f. \<not> truthy f) dep_res)), s1)
               else invoke_run self args s1))"

text \<open>
  \<open>run_cached\<close>. \<open>async with self._lock\<close> waits while the guard is held; in the
  schedule modelled here nobody is left to release it, so the call never returns.
  Leaving the block, by \<open>return\<close> or by an exception, releases the guard; \<open>store_result\<close>
  is what happens between the return of \<open>run_after_deps\<close> and the end of the block.
\<close>

definition store_result :: "nat \<Rightarrow> ('t exn + ('t, 'r) outcome) \<times> ('t, 'r, 'a, 'w) state
    \<Rightarrow> ('t exn + ('t, 'r) outcome) \<times> ('t, 'r, 'a, 'w) state" where
  "store_result self p =
     (case p of
        (Inl e, s) \<Rightarrow> (Inl e, set_lock self False s)
      | (Inr r, s) \<Rightarrow> (Inr r, set_lock self False (set_result self (Some r) s)))"

definition run_cached :: "nat \<Rightarrow> ('t \<Rightarrow> ('t, 'r, 'a, 'w) call) \<Rightarrow> 'a list
    \<Rightarrow> ('t, 'r, 'a, 'w) call" where
  "run_cached self recurse args s =
     (if lazy_lock (heap s self) then None
      else
        let s0 = set_lock self True s in
        (case lazy_result (heap s0 self) of
           Some r \<Rightarrow> Some (Inr r, set_lock self False s0)
         | None \<Rightarrow> map_option (store_result self) (run_after_deps self recurse args s0)))"

subsection \<open>The registry\<close>

text \<open>
  \<open>on_missing\<close> is overridable. It raises, or returns a task: one it constructs
  (\<open>Synthesized\<close>, with the constructor's arguments) or one that exists already
  (\<open>Existing\<close>). The default raises \<open>MissingDependency\<close>.
\<close>

datatype ('t, 'r, 'a, 'w) found =
    Synthesized "'t list" "'t list" "'a list \<Rightarrow> 'w \<Rightarrow> ('t exn + 'r) \<times> 'w"
  | Existing nat

type_synonym ('t, 'r, 'a, 'w) hook = "'t \<Rightarrow> 'w \<Rightarrow> ('t exn + ('t, 'r, 'a, 'w) found) \<times> 'w"

definition on_missing :: "('t, 'r, 'a, 'w) hook" where
  "on_missing t w = (Inl MissingDependency, w)"

text \<open>
  \<open>LazyDB.run\<close>, for a registry whose \<open>on_missing\<close> is \<open>hook\<close>. The recursion through
  \<open>task.run_cached(self.run, *args)\<close> need not end (\<open>on_missing\<close> may keep
  synthesizing tasks with dependencies), so the first argument bounds its depth; \<open>None\<close>
  at depth 0. The dependencies are resolved by \<open>recurse(dep)\<close>, without \<open>*args\<close>.
\<close>

primrec LazyDB_run :: "('t, 'r, 'a, 'w) hook \<Rightarrow> nat \<Rightarrow> 't \<Rightarrow> 'a list \<Rightarrow> ('t, 'r, 'a, 'w) call" where
  "LazyDB_run hook 0 = (\<lambda>t args s. None)"
| "LazyDB_run hook (Suc n) = (\<lambda>t args s.
     case index s t of
       None \<Rightarrow>
         (case hook t (world s) of
            (res, w) \<Rightarrow>
              let s' = s\<lparr>world := w, missing_log := missing_log s @ [t]\<rparr> in
              (case res of
                 Inl MissingDependency \<Rightarrow> Some (Inr (MissingFailure t), s')
               | Inl e \<Rightarrow> Some (Inl e, s')
               | Inr (Synthesized tgts deps body) \<Rightarrow>
                   (case new_task (Lazy tgts deps body) s' of
                      (task, s'') \<Rightarrow> run_cached task (\<lambda>dep. LazyDB_run hook n dep []) args s'')
               | Inr (Existing task) \<Rightarrow>
                   run_cached task (\<lambda>dep. LazyDB_run hook n dep []) args s'))
     | Some task \<Rightarrow> run_cached task (\<lambda>dep. LazyDB_run hook n dep []) args s)"

definition add :: "nat \<Rightarrow> ('t, 'r, 'a, 'w) state \<Rightarrow> ('t, 'r, 'a, 'w) state" where
  "add task s =
     s\<lparr>tasks := tasks s @ [task],
       index := fold (\<lambda>target ix. ix(target \<mapsto> task)) (targets (heap s task)) (index s)\<rparr>"

definition clean :: "('t, 'r, 'a, 'w) state \<Rightarrow> ('t, 'r, 'a, 'w) state" where
  "clean s = s\<lparr>tasks := [], index := Map.empty\<rparr>"

definition reset :: "('t, 'r, 'a, 'w) state \<Rightarrow> ('t, 'r, 'a, 'w) state" where
  "reset s = fold Lazy_reset (tasks s) s"


subsection \<open>How a resolution may change the state\<close>

text \<open>
  \<open>evolves s s'\<close>: between \<open>s\<close> and \<open>s'\<close> the registry is the same, objects were only
  added, the logs only grew, and of every object of \<open>s\<close> the targets, the dependencies,
  the body and the state of the guard are the same, and so is its result cell if the
  guard was held or the cell was occupied.
\<close>

definition evolves :: "('t, 'r, 'a, 'w) state \<Rightarrow> ('t, 'r, 'a, 'w) state \<Rightarrow> bool" where
  "evolves s s' =
     (tasks s' = tasks s \<and> index s' = index s \<and> next_ref s \<le> next_ref s'
      \<and> prefix (run_log s) (run_log s') \<and> prefix (missing_log s) (missing_log s')
      \<and> (\<forall>x<next_ref s.
            targets (heap s' x) = targets (heap s x)
          \<and> dependencies (heap s' x) = dependencies (heap s x)
          \<and> run (heap s' x) = run (heap s x)
          \<and> lazy_lock (heap s' x) = lazy_lock (heap s x)
          \<and> (lazy_lock (heap s x) \<or> lazy_result (heap s x) \<noteq> None
               \<longrightarrow> lazy_result (heap s' x) = lazy_result (heap s x))))"


subsection \<open>Concurrent callers: the interleaving model\<close>

text \<open>
  The functions above follow one resolution at a time. Under asyncio several coroutines
  are in progress at once: every caller of \<open>LazyDB.run\<close> and every dependency handed to
  \<open>asyncio.gather\<close> is a task of the event loop, and the loop switches between them where
  they await. Here a configuration holds the shared state and a pool of threads, one for
  each call of \<open>LazyDB.run\<close> in progress, and a step takes one thread from one point of
  the code to the next.

  The points of a thread that resolves the identifier \<open>ident\<close> with the arguments
  \<open>arguments\<close>:
  \<^item> \<open>Call\<close>: \<open>LazyDB.run(t, *args)\<close> has been called and has not run yet;
  \<^item> \<open>Acquire self\<close>: at \<open>async with self._lock\<close> of \<open>run_cached\<close>, the guard not yet
    acquired;
  \<^item> \<open>Holding self\<close>: inside the block, before \<open>if self._result is not None\<close>;
  \<^item> \<open>Waiting self kids\<close>: in \<open>run_after_deps\<close>, at \<open>await asyncio.gather(...)\<close>; \<open>kids\<close>
    are the threads of the dependencies, in the order of the dependency list;
  \<^item> \<open>Running self kids\<close>: inside \<open>await self.run(*args)\<close>;
  \<^item> \<open>Done r\<close>: \<open>LazyDB.run\<close> has returned or raised \<open>r\<close>.
\<close>

datatype ('t, 'r) pc =
    Call
  | Acquire nat
  | Holding nat
  | Waiting nat "nat list"
  | Running nat "nat list"
  | Done "'t exn + ('t, 'r) outcome"

record ('t, 'r, 'a) thread =
  ident :: 't
  arguments :: "'a list"
  at :: "('t, 'r) pc"

record ('t, 'r, 'a, 'w) config =
  shared :: "('t, 'r, 'a, 'w) state"
  pool :: "nat \<Rightarrow> ('t, 'r, 'a) thread option"
  next_tid :: nat

text \<open>
  The first lines of \<open>LazyDB.run\<close>, up to the task to resolve: the index, else
  \<open>on_missing\<close>. \<open>Inl\<close> is the result of \<open>LazyDB.run\<close> when it ends there.
\<close>

definition find_task :: "('t, 'r, 'a, 'w) hook \<Rightarrow> 't \<Rightarrow> ('t, 'r, 'a, 'w) state
    \<Rightarrow> (('t exn + ('t, 'r) outcome) + nat) \<times> ('t, 'r, 'a, 'w) state" where
  "find_task hook t s =
     (case index s t of
        Some task \<Rightarrow> (Inr task, s)
      | None \<Rightarrow>
          (case hook t (world s) of
             (res, w) \<Rightarrow>
               let s' = s\<lparr>world := w, missing_log := missing_log s @ [t]\<rparr> in
               (case res of
                  Inl MissingDependency \<Rightarrow> (Inl (Inr (MissingFailure t)), s')
                | Inl e \<Rightarrow> (Inl (Inl e), s')
                | Inr (Synthesized tgts deps body) \<Rightarrow>
                    (case new_task (Lazy tgts deps body) s' of (task, s'') \<Rightarrow> (Inr task, s''))
                | Inr (Existing task) \<Rightarrow> (Inr task, s'))))"

text \<open>
  The end of \<open>run()\<close> and the rest of the \<open>try\<close> block: the body's effect on the
  collaborators' state and what \<open>run_after_deps\<close> returns or raises.
\<close>

definition finish_run :: "nat \<Rightarrow> 'a list \<Rightarrow> ('t, 'r, 'a, 'w) state
    \<Rightarrow> ('t exn + ('t, 'r) outcome) \<times> ('t, 'r, 'a, 'w) state" where
  "finish_run self args s =
     (case run (heap s self) args (world s) of
        (res, w) \<Rightarrow>
          (case res of
             Inr v \<Rightarrow> (Inr (Ok self v), s\<lparr>world := w\<rparr>)
           | Inl (TaskFailureExn t m) \<Rightarrow> (Inr (TaskFailure t m), s\<lparr>world := w\<rparr>)
           | Inl e \<Rightarrow> (Inl e, s\<lparr>world := w\<rparr>)))"

text \<open>What \<open>gather\<close> has received from the threads of the dependencies once all have finished.\<close>

definition finished :: "('t, 'r, 'a) thread option \<Rightarrow> ('t exn + ('t, 'r) outcome) option" where
  "finished th = (case th of
      None \<Rightarrow> None
    | Some t \<Rightarrow> (case at t of Done r \<Rightarrow> Some r | _ \<Rightarrow> None))"

fun collect :: "(nat \<Rightarrow> ('t, 'r, 'a) thread option) \<Rightarrow> nat list
    \<Rightarrow> ('t exn + ('t, 'r) outcome) list option" where
  "collect p [] = Some []"
| "collect p (k # ks) =
     (case finished (p k) of
        None \<Rightarrow> None
      | Some r \<Rightarrow> (case collect p ks of None \<Rightarrow> None | Some rs \<Rightarrow> Some (r # rs)))"

text \<open>\<open>gather\<close> makes a task of each \<open>recurse(dep)\<close>: new threads, at \<open>Call\<close>, without arguments.\<close>

definition spawn :: "nat \<Rightarrow> 't list \<Rightarrow> (nat \<Rightarrow> ('t, 'r, 'a) thread option)
    \<Rightarrow> (nat \<Rightarrow> ('t, 'r, 'a) thread option)" where
  "spawn n deps p =
     (\<lambda>k. if n \<le> k \<and> k < n + length deps
          then Some \<lparr>ident = deps ! (k - n), arguments = [], at = Call\<rparr>
          else p k)"

definition moved :: "('t, 'r, 'a, 'w) config \<Rightarrow> nat \<Rightarrow> ('t, 'r, 'a) thread
    \<Rightarrow> ('t, 'r, 'a, 'w) state \<Rightarrow> ('t, 'r) pc \<Rightarrow> ('t, 'r, 'a, 'w) config" where
  "moved c i th s' pc' = c\<lparr>shared := s', pool := (pool c)(i \<mapsto> th\<lparr>at := pc'\<rparr>)\<rparr>"

definition fan_out :: "('t, 'r, 'a, 'w) config \<Rightarrow> nat \<Rightarrow> ('t, 'r, 'a) thread \<Rightarrow> nat
    \<Rightarrow> ('t, 'r, 'a, 'w) config" where
  "fan_out c i th self =
     (let deps = dependencies (heap (shared c) self); n = next_tid c in
      c\<lparr>pool := spawn n deps ((pool c)(i \<mapsto> th\<lparr>at := Waiting self [n ..< n + length deps]\<rparr>)),
        next_tid := n + length deps\<rparr>)"

text \<open>
  \<open>gather\<close> has all the results \<open>rs\<close>: lines 99 to 102 of \<open>run_after_deps\<close> and, where the
  function ends there, the rest of \<open>run_cached\<close>.
\<close>

definition join :: "('t, 'r, 'a, 'w) config \<Rightarrow> nat \<Rightarrow> ('t, 'r, 'a) thread \<Rightarrow> nat \<Rightarrow> nat list
    \<Rightarrow> ('t exn + ('t, 'r) outcome) list \<Rightarrow> ('t, 'r, 'a, 'w) config" where
  "join c i th self kids rs =
     (let s = shared c in
      case await_all rs of
        Inl e \<Rightarrow> moved c i th (set_lock self False s) (Done (Inl e))
      | Inr dep_res \<Rightarrow>
          if \<not> list_all truthy dep_res
          then (case store_result self
                       (Inr (DependencyFailure self (filter (\<lambda>f. \<not> truthy f) dep_res)), s) of
                  (q, s') \<Rightarrow> moved c i th s' (Done q))
          else moved c i th (s\<lparr>run_log := run_log s @ [self]\<rparr>) (Running self kids))"

text \<open>
  One step of thread \<open>i\<close>; \<open>None\<close> when it cannot move (it waits for a guard that is held
  or for dependencies that have not finished, it has finished, or there is no such
  thread). For a thread waiting in \<open>gather\<close>, \<open>k\<close> names a dependency whose exception is to
  be delivered.

  The model has more executions than the event loop: a step is shorter than the code
  between two awaits, a free guard may go to any thread that waits for it (the asyncio
  lock hands it over in the order of arrival), and a \<open>gather\<close> one of whose dependencies
  has raised may deliver any such exception at any later time, while the other
  dependencies go on (asyncio delivers the first). The body of \<open>run()\<close> starts in one step,
  which is logged, and ends in a later one, where its effect on the collaborators' state
  takes place; other threads move in between. There is no cancellation: the engine has
  none.
\<close>

definition advance :: "('t, 'r, 'a, 'w) hook \<Rightarrow> nat \<Rightarrow> nat \<Rightarrow> ('t, 'r, 'a, 'w) config
    \<Rightarrow> ('t, 'r, 'a, 'w) config option" where
  "advance hook i k c =
     (case pool c i of
        None \<Rightarrow> None
      | Some th \<Rightarrow>
          let s = shared c in
          (case at th of
             Call \<Rightarrow>
               (case find_task hook (ident th) s of
                  (Inl r, s') \<Rightarrow> Some (moved c i th s' (Done r))
                | (Inr task, s') \<Rightarrow> Some (moved c i th s' (Acquire task)))
           | Acquire self \<Rightarrow>
               if lazy_lock (heap s self) then None
               else Some (moved c i th (set_lock self True s) (Holding self))
           | Holding self \<Rightarrow>
               (case lazy_result (heap s self) of
                  Some r \<Rightarrow> Some (moved c i th (set_lock self False s) (Done (Inr r)))
                | None \<Rightarrow> Some (fan_out c i th self))
           | Waiting self kids \<Rightarrow>
               (case (if k \<in> set kids then finished (pool c k) else None) of
                  Some (Inl e) \<Rightarrow> Some (moved c i th (set_lock self False s) (Done (Inl e)))
                | _ \<Rightarrow> map_option (join c i th self kids) (collect (pool c) kids))
           | Running self kids \<Rightarrow>
               (case store_result self (finish_run self (arguments th) s) of
                  (q, s') \<Rightarrow> Some (moved c i th s' (Done q)))
           | Done r \<Rightarrow> None))"

text \<open>A schedule is the list of the threads that move, with their choices.\<close>

fun run_schedule :: "('t, 'r, 'a, 'w) hook \<Rightarrow> (nat \<times> nat) list \<Rightarrow> ('t, 'r, 'a, 'w) config
    \<Rightarrow> ('t, 'r, 'a, 'w) config option" where
  "run_schedule hook [] c = Some c"
| "run_schedule hook ((i, k) # ms) c =
     (case advance hook i k c of None \<Rightarrow> None | Some c' \<Rightarrow> run_schedule hook ms c')"

text \<open>
  Any number of callers of \<open>LazyDB.run\<close>, each with its identifier and arguments, none of
  which has run yet.
\<close>

definition callers :: "('t, 'r, 'a, 'w) state \<Rightarrow> ('t \<times> 'a list) list \<Rightarrow> ('t, 'r, 'a, 'w) config" where
  "callers s reqs =
     \<lparr>shared = s,
      pool = (\<lambda>i. if i < length reqs
                  then Some \<lparr>ident = fst (reqs ! i), arguments = snd (reqs ! i), at = Call\<rparr>
                  else None),
      next_tid = length reqs\<rparr>"

subsection \<open>Counting the executions of \<open>run()\<close>\<close>




subsection \<open>Invariants of the interleaving model\<close>








subsection \<open>Example tasks and registries\<close>

text \<open>
  Concrete bodies and states for the worked instances below: identifiers are strings,
  values and arguments are numbers, and the collaborators' state is a counter that every
  body increments.
\<close>

definition counting :: "nat list \<Rightarrow> nat \<Rightarrow> (string exn + nat) \<times> nat" where
  "counting args w = (Inr w, Suc w)"

definition failing :: "nat list \<Rightarrow> nat \<Rightarrow> (string exn + nat) \<times> nat" where
  "failing args w = (Inl (TaskFailureExn ''b'' ''x''), Suc w)"

definition crashing :: "nat list \<Rightarrow> nat \<Rightarrow> (string exn + nat) \<times> nat" where
  "crashing args w = (Inl (OtherError ''boom''), Suc w)"

definition empty_db :: "(string, nat, nat, nat) state" where
  "empty_db = \<lparr>heap = (\<lambda>_. Lazy [] [] Lazy_run), next_ref = 0, tasks = [], index = Map.empty,
     world = 0, run_log = [], missing_log = []\<rparr>"

definition two_tasks :: "(string, nat, nat, nat) state" where
  "two_tasks = empty_db\<lparr>heap := (heap empty_db)
      (0 := Lazy [''x'', ''y''] [] counting, 1 := Lazy [''x'', ''z''] [] failing), next_ref := 2\<rparr>"

definition resolved_tasks :: "(string, nat, nat, nat) state" where
  "resolved_tasks = set_result 1 (Some (TaskFailure ''b'' ''x''))
     (set_result 0 (Some (Ok 0 5)) (add 0 two_tasks))"

text \<open>A resolver for the examples: \<open>''b''\<close> succeeds, anything else is missing.\<close>

definition only_b :: "string \<Rightarrow> (string, nat, nat, nat) call" where
  "only_b dep s = Some (if dep = ''b'' then Inr (Ok 1 7) else Inr (MissingFailure dep), s)"

definition three_deps :: "(string, nat, nat, nat) state" where
  "three_deps = empty_db\<lparr>heap := (heap empty_db)
      (0 := Lazy [''a''] [''u'', ''b'', ''v''] counting), next_ref := 1\<rparr>"

definition one_dep :: "(nat list \<Rightarrow> nat \<Rightarrow> (string exn + nat) \<times> nat) \<Rightarrow> (string, nat, nat, nat) state" where
  "one_dep body = empty_db\<lparr>heap := (heap empty_db) (0 := Lazy [''a''] [''b''] body), next_ref := 1\<rparr>"

definition leaf_hook :: "(string, nat, nat, nat) hook" where
  "leaf_hook t w = (if t = ''gone'' then Inl MissingDependency else Inr (Synthesized [t] [] counting), w)"

text \<open>Task 0 of \<open>two_tasks\<close>, registered and resolved once.\<close>

definition after_first :: "(string, nat, nat, nat) state" where
  "after_first = set_result 0 (Some (Ok 0 0)) ((add 0 two_tasks)\<lparr>world := 1, run_log := [0]\<rparr>)"

text \<open>
  The state after \<open>leaf_hook\<close> has synthesized a leaf for \<open>t\<close> and the leaf has been
  resolved.
\<close>

definition leaf_step :: "string \<Rightarrow> (string, nat, nat, nat) state \<Rightarrow> (string, nat, nat, nat) state" where
  "leaf_step t s =
     set_result (next_ref s) (Some (Ok (next_ref s) (world s)))
       ((snd (new_task (Lazy [t] [] counting) (s\<lparr>missing_log := missing_log s @ [t]\<rparr>)))
          \<lparr>world := Suc (world s), run_log := run_log s @ [next_ref s]\<rparr>)"

text \<open>\<open>one_dep crashing\<close> with the guard of task 0 held and its dependency resolved.\<close>

definition crash_mid :: "(string, nat, nat, nat) state" where
  "crash_mid = leaf_step ''b'' (set_lock 0 True (one_dep crashing))"

text \<open>
  The diamond: \<open>''a''\<close> needs \<open>''b''\<close> and \<open>''c''\<close>, both need \<open>''d''\<close>; the body of the task
  for \<open>''d''\<close> is the parameter.
\<close>

definition diamond :: "(nat list \<Rightarrow> nat \<Rightarrow> (string exn + nat) \<times> nat) \<Rightarrow> (string, nat, nat, nat) state" where
  "diamond body = add 3 (add 2 (add 1 (add 0 (empty_db\<lparr>heap := (heap empty_db)
      (0 := Lazy [''a''] [''b'', ''c''] counting, 1 := Lazy [''b''] [''d''] counting,
       2 := Lazy [''c''] [''d''] counting, 3 := Lazy [''d''] [] body), next_ref := 4\<rparr>))))"



definition diamond_asyncio :: "(nat \<times> nat) list" where
  "diamond_asyncio =
     [(0, 0), (0, 0), (0, 0), (1, 0), (1, 0), (1, 0), (2, 0), (2, 0), (2, 0),
      (3, 0), (3, 0), (3, 0), (3, 0), (3, 0), (4, 0), (4, 0), (4, 0), (4, 0), (4, 0)]"

text \<open>
  The kite: \<open>''a''\<close> needs \<open>''b''\<close> and \<open>''c''\<close>, \<open>''b''\<close> needs \<open>''d''\<close>, and \<open>''c''\<close> and \<open>''d''\<close>
  are leaves; the bodies of the tasks for \<open>''b''\<close> and \<open>''c''\<close> are the parameters.
  \<open>kite_asyncio\<close> and \<open>kite_raise_asyncio\<close> are the orders of the event loop for a caller
  of \<open>''a''\<close>: each thread moves as far as it can, in the order in which the threads were
  started or woken up. In the second, \<open>''c''\<close> has raised before \<open>''b''\<close> can run, and the
  caller's \<open>gather\<close> delivers that exception.
\<close>

definition raising :: "string \<Rightarrow> nat list \<Rightarrow> nat \<Rightarrow> (string exn + nat) \<times> nat" where
  "raising name args w = (Inl (OtherError name), Suc w)"

definition kite :: "(nat list \<Rightarrow> nat \<Rightarrow> (string exn + nat) \<times> nat)
    \<Rightarrow> (nat list \<Rightarrow> nat \<Rightarrow> (string exn + nat) \<times> nat) \<Rightarrow> (string, nat, nat, nat) state" where
  "kite body_b body_c = add 3 (add 2 (add 1 (add 0 (empty_db\<lparr>heap := (heap empty_db)
      (0 := Lazy [''a''] [''b'', ''c''] counting, 1 := Lazy [''b''] [''d''] body_b,
       2 := Lazy [''c''] [] body_c, 3 := Lazy [''d''] [] counting), next_ref := 4\<rparr>))))"

definition kite_asyncio :: "(nat \<times> nat) list" where
  "kite_asyncio =
     [(0, 0), (0, 0), (0, 0), (1, 0), (1, 0), (1, 0), (2, 0), (2, 0), (2, 0), (2, 0), (2, 0),
      (3, 0), (3, 0), (3, 0), (3, 0), (3, 0), (1, 0), (1, 0), (0, 0), (0, 0)]"

definition kite_raise_asyncio :: "(nat \<times> nat) list" where
  "kite_raise_asyncio =
     [(0, 0), (0, 0), (0, 0), (1, 0), (1, 0), (1, 0), (2, 0), (2, 0), (2, 0), (2, 0), (2, 0),
      (3, 0), (3, 0), (3, 0), (3, 0), (3, 0), (0, 2)]"

section \<open>Properties\<close>

subsection \<open>Field updates\<close>

lemma set_lock_fields [simp]:
  "tasks (set_lock x b s) = tasks s" "index (set_lock x b s) = index s"
  "next_ref (set_lock x b s) = next_ref s" "world (set_lock x b s) = world s"
  "run_log (set_lock x b s) = run_log s" "missing_log (set_lock x b s) = missing_log s"
  "heap (set_lock x b s) y = (if y = x then (heap s x)\<lparr>lazy_lock := b\<rparr> else heap s y)"
  by (simp_all add: set_lock_def)

lemma set_result_fields [simp]:
  "tasks (set_result x r s) = tasks s" "index (set_result x r s) = index s"
  "next_ref (set_result x r s) = next_ref s" "world (set_result x r s) = world s"
  "run_log (set_result x r s) = run_log s" "missing_log (set_result x r s) = missing_log s"
  "heap (set_result x r s) y = (if y = x then (heap s x)\<lparr>lazy_result := r\<rparr> else heap s y)"
  by (simp_all add: set_result_def)

subsection \<open>The registry's index and bulk reset\<close>

lemma fold_index_upd:
  "fold (\<lambda>target ix. ix(target \<mapsto> task)) tgts ix t = (if t \<in> set tgts then Some task else ix t)"
  by (induction tgts arbitrary: ix) auto

lemma heap_fold_Lazy_reset:
  "heap (fold Lazy_reset rs s) x = (if x \<in> set rs then (heap s x)\<lparr>lazy_result := None\<rparr> else heap s x)"
  by (induction rs arbitrary: s) (auto simp: Lazy_reset_def set_result_def)

lemma fold_Lazy_reset_frame:
  "tasks (fold Lazy_reset rs s) = tasks s \<and> index (fold Lazy_reset rs s) = index s
   \<and> next_ref (fold Lazy_reset rs s) = next_ref s \<and> world (fold Lazy_reset rs s) = world s
   \<and> run_log (fold Lazy_reset rs s) = run_log s \<and> missing_log (fold Lazy_reset rs s) = missing_log s"
  by (induction rs arbitrary: s) (simp_all add: Lazy_reset_def set_result_def)

subsection \<open>Every resolution evolves the state\<close>

lemma evolves_refl: "evolves s s"
  by (simp add: evolves_def)

lemma evolves_trans: "evolves s s1 \<Longrightarrow> evolves s1 s2 \<Longrightarrow> evolves s s2"
  unfolding evolves_def
  apply (intro conjI)
       apply simp
      apply simp
     apply simp
    apply (meson prefix_order.order_trans)
   apply (meson prefix_order.order_trans)
  apply (intro allI impI)
  subgoal for x
    apply (subgoal_tac "x < next_ref s1")
     apply (elim conjE)
     apply (drule_tac x = x in spec)+
     apply auto
    done
  done

lemma gather_evolves:
  assumes rec: "\<And>d s r s'. recurse d s = Some (r, s') \<Longrightarrow> evolves s s'"
  shows "gather recurse deps s = Some (rs, s') \<Longrightarrow> evolves s s'"
proof (induction deps arbitrary: s rs)
  case Nil
  then show ?case by (simp add: evolves_refl)
next
  case (Cons d deps)
  from Cons.prems obtain r s1 rs' where
    1: "recurse d s = Some (r, s1)" and 2: "gather recurse deps s1 = Some (rs', s')"
    by (auto split: option.splits prod.splits)
  from rec [OF 1] Cons.IH [OF 2] show ?case by (rule evolves_trans)
qed

lemma invoke_run_evolves: "invoke_run self args s = Some (r, s') \<Longrightarrow> evolves s s'"
  by (auto simp: invoke_run_def evolves_def Let_def split: prod.splits sum.splits exn.splits)

lemma run_after_deps_evolves:
  assumes rec: "\<And>d s r s'. recurse d s = Some (r, s') \<Longrightarrow> evolves s s'"
    and run: "run_after_deps self recurse args s = Some (r, s')"
  shows "evolves s s'"
proof -
  from run obtain rs s1 where
    g: "gather recurse (dependencies (heap s self)) s = Some (rs, s1)"
    by (auto simp: run_after_deps_def split: option.splits)
  have e1: "evolves s s1" using rec g by (rule gather_evolves)
  from run g have "s' = s1 \<or> invoke_run self args s1 = Some (r, s')"
    by (auto simp: run_after_deps_def split: sum.splits if_splits)
  then show ?thesis
    using e1 invoke_run_evolves evolves_trans by blast
qed

lemma run_cached_evolves:
  assumes rec: "\<And>d s r s'. recurse d s = Some (r, s') \<Longrightarrow> evolves s s'"
    and run: "run_cached self recurse args s = Some (r, s')"
  shows "evolves s s'"
proof -
  from run have free: "\<not> lazy_lock (heap s self)"
    by (auto simp: run_cached_def split: if_splits)
  show ?thesis
  proof (cases "lazy_result (heap s self)")
    case (Some c)
    with run free have "s' = set_lock self False (set_lock self True s)"
      by (simp add: run_cached_def Let_def)
    then show ?thesis using free by (simp add: evolves_def)
  next
    case None
    with run free obtain p where
      p: "run_after_deps self recurse args (set_lock self True s) = Some p"
      and s': "(r, s') = store_result self p"
      by (auto simp: run_cached_def Let_def)
    obtain q s1 where pq: "p = (q, s1)" by (cases p)
    from rec p [unfolded pq] have e: "evolves (set_lock self True s) s1"
      by (rule run_after_deps_evolves)
    from s' pq have "s' = set_lock self False s1 \<or> (\<exists>c. s' = set_lock self False (set_result self (Some c) s1))"
      by (auto simp: store_result_def split: sum.splits)
    then have rest: "tasks s' = tasks s1" "index s' = index s1" "next_ref s' = next_ref s1"
      "run_log s' = run_log s1" "missing_log s' = missing_log s1"
      "\<And>x. x \<noteq> self \<Longrightarrow> heap s' x = heap s1 x"
      "targets (heap s' self) = targets (heap s1 self)"
      "dependencies (heap s' self) = dependencies (heap s1 self)"
      "run (heap s' self) = run (heap s1 self)"
      "\<not> lazy_lock (heap s' self)"
      by auto
    have "\<forall>x<next_ref s.
            targets (heap s' x) = targets (heap s x)
          \<and> dependencies (heap s' x) = dependencies (heap s x)
          \<and> run (heap s' x) = run (heap s x)
          \<and> lazy_lock (heap s' x) = lazy_lock (heap s x)
          \<and> (lazy_lock (heap s x) \<or> lazy_result (heap s x) \<noteq> None
               \<longrightarrow> lazy_result (heap s' x) = lazy_result (heap s x))"
    proof (intro allI impI)
      fix x assume x: "x < next_ref s"
      show "targets (heap s' x) = targets (heap s x)
          \<and> dependencies (heap s' x) = dependencies (heap s x)
          \<and> run (heap s' x) = run (heap s x)
          \<and> lazy_lock (heap s' x) = lazy_lock (heap s x)
          \<and> (lazy_lock (heap s x) \<or> lazy_result (heap s x) \<noteq> None
               \<longrightarrow> lazy_result (heap s' x) = lazy_result (heap s x))"
      proof (cases "x = self")
        case True
        with e x free None rest show ?thesis by (simp add: evolves_def)
      next
        case False
        with e x rest(6) [OF False] show ?thesis by (simp add: evolves_def)
      qed
    qed
    with e rest(1-5) show ?thesis by (simp add: evolves_def)
  qed
qed

lemma LazyDB_run_evolves:
  "LazyDB_run hook n t args s = Some (r, s') \<Longrightarrow> evolves s s'"
proof (induction n arbitrary: t args s r s')
  case 0
  then show ?case by simp
next
  case (Suc n)
  have rec: "\<And>d s r s'. LazyDB_run hook n d [] s = Some (r, s') \<Longrightarrow> evolves s s'"
    by (rule Suc.IH)
  show ?case
  proof (cases "index s t")
    case (Some task)
    with Suc.prems have "run_cached task (\<lambda>dep. LazyDB_run hook n dep []) args s = Some (r, s')"
      by simp
    with rec show ?thesis by (rule run_cached_evolves [where recurse = "\<lambda>dep. LazyDB_run hook n dep []"])
  next
    case None
    obtain res w where h: "hook t (world s) = (res, w)" by (cases "hook t (world s)")
    define sh where "sh = s\<lparr>world := w, missing_log := missing_log s @ [t]\<rparr>"
    have e0: "evolves s sh" by (simp add: evolves_def sh_def)
    show ?thesis
    proof (cases res)
      case (Inl e)
      with Suc.prems None h have "s' = sh"
        by (cases e) (auto simp: sh_def Let_def)
      with e0 show ?thesis by simp
    next
      case (Inr found)
      show ?thesis
      proof (cases found)
        case (Existing task)
        with Suc.prems None h Inr
        have "run_cached task (\<lambda>dep. LazyDB_run hook n dep []) args sh = Some (r, s')"
          by (simp add: sh_def Let_def)
        with rec have "evolves sh s'"
          by (rule run_cached_evolves [where recurse = "\<lambda>dep. LazyDB_run hook n dep []"])
        with e0 show ?thesis by (rule evolves_trans)
      next
        case (Synthesized tgts deps body)
        define sn where "sn = snd (new_task (Lazy tgts deps body) sh)"
        have e1: "evolves sh sn" by (simp add: evolves_def sn_def new_task_def)
        from Suc.prems None h Inr Synthesized
        have "run_cached (next_ref s) (\<lambda>dep. LazyDB_run hook n dep []) args sn = Some (r, s')"
          by (simp add: sh_def sn_def Let_def new_task_def)
        with rec have "evolves sn s'"
          by (rule run_cached_evolves [where recurse = "\<lambda>dep. LazyDB_run hook n dep []"])
        with e0 e1 show ?thesis by (blast intro: evolves_trans)
      qed
    qed
  qed
qed

subsection \<open>Awaiting outcomes\<close>

lemma await_all_values: "await_all (map Inr vs) = Inr vs"
  by (induction vs) simp_all

subsection \<open>Cached resolution, case by case\<close>

lemma release_free_guard: "\<not> lazy_lock l \<Longrightarrow> l\<lparr>lazy_lock := False\<rparr> = l"
  by (cases l) simp

lemma set_lock_release: "\<not> lazy_lock (heap s self) \<Longrightarrow> set_lock self False (set_lock self True s) = s"
  by (simp add: set_lock_def release_free_guard)

lemma run_cached_occupied:
  assumes "lazy_result (heap s self) = Some r"
  shows "run_cached self recurse args s = (if lazy_lock (heap s self) then None else Some (Inr r, s))"
  using assms by (simp add: run_cached_def Let_def set_lock_release)

lemma run_cached_empty:
  "\<not> lazy_lock (heap s self) \<Longrightarrow> lazy_result (heap s self) = None \<Longrightarrow>
   run_cached self recurse args s =
     map_option (store_result self) (run_after_deps self recurse args (set_lock self True s))"
  by (simp add: run_cached_def Let_def)

lemma guard_cycle: "\<not> lazy_lock l \<Longrightarrow> l\<lparr>lazy_lock := True, lazy_result := r, lazy_lock := False\<rparr> = l\<lparr>lazy_result := r\<rparr>"
  by (cases l) simp

lemma store_after_lock:
  "\<not> lazy_lock (heap s self) \<Longrightarrow>
   set_lock self False (set_result self r (set_lock self True s\<lparr>world := w, run_log := l\<rparr>))
     = set_result self r (s\<lparr>world := w, run_log := l\<rparr>)"
  by (simp add: set_lock_def set_result_def guard_cycle)

lemma run_cached_leaf:
  assumes "\<not> lazy_lock (heap s self)" and "lazy_result (heap s self) = None"
    and "dependencies (heap s self) = []"
    and "run (heap s self) args (world s) = (Inr v, w)"
  shows "run_cached self recurse args s =
    Some (Inr (Ok self v), set_result self (Some (Ok self v)) (s\<lparr>world := w, run_log := run_log s @ [self]\<rparr>))"
  using assms
  by (simp add: run_cached_def run_after_deps_def invoke_run_def store_result_def Let_def
      store_after_lock)

lemma run_cached_stores:
  assumes "run_cached self recurse args s = Some (Inr out, s')"
  shows "lazy_result (heap s' self) = Some out"
proof (cases "lazy_result (heap s self)")
  case (Some r)
  with assms show ?thesis
    by (auto simp: run_cached_occupied split: if_splits)
next
  case None
  from assms have "\<not> lazy_lock (heap s self)"
    by (auto simp: run_cached_def split: if_splits)
  with assms None obtain p where
    r: "store_result self p = (Inr out, s')"
    by (auto simp: run_cached_empty)
  obtain q s1 where pq: "p = (q, s1)" by (cases p)
  from r pq have "s' = set_lock self False (set_result self (Some out) s1)"
    by (cases q) (simp_all add: store_result_def)
  then show ?thesis by simp
qed

lemma run_cached_leaf_log:
  assumes "\<not> lazy_lock (heap s self)" and "lazy_result (heap s self) = None"
    and "dependencies (heap s self) = []"
    and "run_cached self recurse args s = Some (res, s')"
  shows "run_log s' = run_log s @ [self]"
proof -
  have "run_after_deps self recurse args (set_lock self True s)
      = invoke_run self args (set_lock self True s)"
    using assms(3) by (simp add: run_after_deps_def)
  with assms(4) obtain p where p: "invoke_run self args (set_lock self True s) = Some p"
    and r: "store_result self p = (res, s')"
    by (auto simp: run_cached_empty [OF assms(1,2)])
  obtain q s1 where pq: "p = (q, s1)" by (cases p)
  from p pq have "run_log s1 = run_log s @ [self]"
    by (auto simp: invoke_run_def Let_def split: prod.splits sum.splits exn.splits)
  with r pq show ?thesis
    by (auto simp: store_result_def split: sum.splits)
qed

subsection \<open>Synthesized tasks\<close>

lemma new_task_fields:
  "heap (snd (new_task obj s)) x = (if x = next_ref s then obj else heap s x)"
  "next_ref (snd (new_task obj s)) = Suc (next_ref s)"
  "tasks (snd (new_task obj s)) = tasks s" "index (snd (new_task obj s)) = index s"
  "world (snd (new_task obj s)) = world s" "run_log (snd (new_task obj s)) = run_log s"
  "missing_log (snd (new_task obj s)) = missing_log s"
  by (simp_all add: new_task_def)

lemma LazyDB_run_synthesized:
  assumes "index s t = None" and "hook t (world s) = (Inr (Synthesized tgts deps body), w)"
  shows "LazyDB_run hook (Suc n) t args s =
           run_cached (next_ref s) (\<lambda>dep. LazyDB_run hook n dep []) args
             (snd (new_task (Lazy tgts deps body)
                (s\<lparr>world := w, missing_log := missing_log s @ [t]\<rparr>)))"
  using assms by (simp add: Let_def new_task_def)

lemma synthesized_call:
  assumes wf: "\<forall>x\<in>set (tasks s). x < next_ref s"
    and un: "index s t = None"
    and hk: "hook t (world s) = (Inr (Synthesized tgts deps body), w)"
    and rn: "LazyDB_run hook (Suc n) t args s = Some (res, s')"
  shows "tasks s' = tasks s \<and> index s' = index s
       \<and> next_ref s < next_ref s' \<and> next_ref s \<notin> set (tasks s')
       \<and> prefix (missing_log s @ [t]) (missing_log s')
       \<and> (deps = [] \<longrightarrow> run_log s' = run_log s @ [next_ref s])
       \<and> (\<forall>out. res = Inr out \<longrightarrow> lazy_result (heap s' (next_ref s)) = Some out)
       \<and> (\<forall>x\<in>set (tasks s'). x < next_ref s')"
proof -
  let ?sh = "s\<lparr>world := w, missing_log := missing_log s @ [t]\<rparr>"
  let ?sn = "snd (new_task (Lazy tgts deps body) ?sh)"
  let ?rec = "\<lambda>dep. LazyDB_run hook n dep []"
  have rc: "run_cached (next_ref s) ?rec args ?sn = Some (res, s')"
    using LazyDB_run_synthesized [of s t hook tgts deps body w n args] un hk rn by simp
  have ev: "evolves ?sn s'"
    using rc by (rule run_cached_evolves [rotated]) (rule LazyDB_run_evolves)
  have 1: "tasks s' = tasks s" "index s' = index s" "next_ref s < next_ref s'"
    "prefix (missing_log s @ [t]) (missing_log s')"
    using ev by (simp_all add: evolves_def new_task_fields)
  have 2: "next_ref s \<notin> set (tasks s')" "\<forall>x\<in>set (tasks s'). x < next_ref s'"
    using wf 1(1,3) by auto
  have fresh: "\<not> lazy_lock (heap ?sn (next_ref s))" "lazy_result (heap ?sn (next_ref s)) = None"
    "dependencies (heap ?sn (next_ref s)) = deps"
    by (simp_all add: new_task_fields Lazy_def)
  have 3: "run_log s' = run_log s @ [next_ref s]" if "deps = []"
    using run_cached_leaf_log [OF fresh(1,2) _ rc] fresh(3) that
    by (simp add: new_task_fields)
  have 4: "lazy_result (heap s' (next_ref s)) = Some out" if "res = Inr out" for out
    using rc that by (auto intro: run_cached_stores)
  show ?thesis using 1 2 3 4 by blast
qed

subsection \<open>The example states\<close>

lemma empty_db_fields:
  "heap empty_db x = Lazy [] [] Lazy_run" "next_ref empty_db = 0" "tasks empty_db = []"
  "index empty_db = Map.empty" "world empty_db = 0" "run_log empty_db = []"
  "missing_log empty_db = []"
  by (simp_all add: empty_db_def)

lemma two_tasks_fields:
  "heap two_tasks 0 = Lazy [''x'', ''y''] [] counting"
  "heap two_tasks 1 = Lazy [''x'', ''z''] [] failing"
  "next_ref two_tasks = 2" "tasks two_tasks = []" "index two_tasks = Map.empty"
  "world two_tasks = 0" "run_log two_tasks = []" "missing_log two_tasks = []"
  by (simp_all add: two_tasks_def empty_db_def)

lemma one_dep_fields:
  "heap (one_dep body) 0 = Lazy [''a''] [''b''] body" "next_ref (one_dep body) = 1"
  "tasks (one_dep body) = []" "index (one_dep body) = Map.empty" "world (one_dep body) = 0"
  "run_log (one_dep body) = []" "missing_log (one_dep body) = []"
  by (simp_all add: one_dep_def empty_db_fields)

lemma add_fields:
  "tasks (add task s) = tasks s @ [task]"
  "index (add task s) t = (if t \<in> set (targets (heap s task)) then Some task else index s t)"
  "heap (add task s) = heap s" "next_ref (add task s) = next_ref s" "world (add task s) = world s"
  "run_log (add task s) = run_log s" "missing_log (add task s) = missing_log s"
  by (simp_all add: add_def fold_index_upd)

lemma first_resolution:
  "LazyDB_run on_missing 1 ''y'' [] (add 0 two_tasks) = Some (Inr (Ok 0 0), after_first)"
proof -
  have "LazyDB_run on_missing 1 ''y'' [] (add 0 two_tasks)
      = run_cached 0 (\<lambda>dep. LazyDB_run on_missing 0 dep []) [] (add 0 two_tasks)"
    by (simp add: add_fields two_tasks_fields Lazy_def)
  also have "\<dots> = Some (Inr (Ok 0 0), after_first)"
    unfolding after_first_def
    by (subst run_cached_leaf [where v = 0 and w = 1])
       (simp_all add: add_fields two_tasks_fields Lazy_def counting_def)
  finally show ?thesis .
qed

lemma leaf_step_fields:
  "next_ref (leaf_step t s) = Suc (next_ref s)" "world (leaf_step t s) = Suc (world s)"
  "tasks (leaf_step t s) = tasks s" "index (leaf_step t s) = index s"
  "run_log (leaf_step t s) = run_log s @ [next_ref s]"
  "missing_log (leaf_step t s) = missing_log s @ [t]"
  "heap (leaf_step t s) x =
     (if x = next_ref s then (Lazy [t] [] counting)\<lparr>lazy_result := Some (Ok (next_ref s) (world s))\<rparr>
      else heap s x)"
  by (simp_all add: leaf_step_def new_task_fields)

lemma leaf_hook_run:
  assumes "index s t = None" and "t \<noteq> ''gone''"
  shows "LazyDB_run leaf_hook (Suc n) t args s
           = Some (Inr (Ok (next_ref s) (world s)), leaf_step t s)"
proof -
  let ?sn = "snd (new_task (Lazy [t] [] counting) (s\<lparr>world := world s, missing_log := missing_log s @ [t]\<rparr>))"
  have "LazyDB_run leaf_hook (Suc n) t args s
      = run_cached (next_ref s) (\<lambda>dep. LazyDB_run leaf_hook n dep []) args ?sn"
    using assms by (intro LazyDB_run_synthesized) (simp_all add: leaf_hook_def)
  also have "\<dots> = Some (Inr (Ok (next_ref s) (world s)), leaf_step t s)"
    unfolding leaf_step_def
    by (subst run_cached_leaf [where v = "world s" and w = "Suc (world s)"])
       (simp_all add: new_task_fields Lazy_def counting_def)
  finally show ?thesis .
qed

subsection \<open>The diamond\<close>


subsection \<open>The depth bound\<close>

text \<open>
  A call that returns within depth \<open>n\<close> returns the same within any greater depth, so
  \<open>None\<close> at depth \<open>n\<close> only says that the recursion is deeper than \<open>n\<close> or that the
  call never returns.
\<close>

lemma gather_mono:
  assumes "\<And>d s p. recurse d s = Some p \<Longrightarrow> recurse' d s = Some p"
  shows "gather recurse deps s = Some q \<Longrightarrow> gather recurse' deps s = Some q"
proof (induction deps arbitrary: s q)
  case Nil
  then show ?case by simp
next
  case (Cons d deps)
  from Cons.prems obtain r s1 rs s2 where
    1: "recurse d s = Some (r, s1)" and 2: "gather recurse deps s1 = Some (rs, s2)"
    and q: "q = (r # rs, s2)"
    by (auto split: option.splits prod.splits)
  from assms [OF 1] Cons.IH [OF 2] q show ?case by simp
qed

lemma run_cached_mono:
  assumes "\<And>d s p. recurse d s = Some p \<Longrightarrow> recurse' d s = Some p"
    and "run_cached self recurse args s = Some q"
  shows "run_cached self recurse' args s = Some q"
proof -
  have rad: "run_after_deps self recurse' args s0 = Some p"
    if "run_after_deps self recurse args s0 = Some p" for s0 p
  proof -
    from that obtain g where g: "gather recurse (dependencies (heap s0 self)) s0 = Some g"
      by (auto simp: run_after_deps_def split: option.splits)
    from assms(1) g have "gather recurse' (dependencies (heap s0 self)) s0 = Some g"
      by (rule gather_mono)
    with that g show ?thesis by (simp add: run_after_deps_def)
  qed
  from assms(2) show ?thesis
    by (auto simp: run_cached_def Let_def split: if_splits option.splits dest: rad)
qed

lemma LazyDB_run_mono:
  "LazyDB_run hook n t args s = Some q \<Longrightarrow> LazyDB_run hook (Suc n) t args s = Some q"
proof (induction n arbitrary: t args s q)
  case 0
  then show ?case by simp
next
  case (Suc n)
  let ?rec = "\<lambda>dep. LazyDB_run hook n dep []"
  let ?rec' = "\<lambda>dep. LazyDB_run hook (Suc n) dep []"
  have step: "run_cached task ?rec' args s0 = Some q"
    if "run_cached task ?rec args s0 = Some q" for task s0
  proof (rule run_cached_mono [where recurse = ?rec])
    show "\<And>d s p. ?rec d s = Some p \<Longrightarrow> ?rec' d s = Some p" by (rule Suc.IH)
    show "run_cached task ?rec args s0 = Some q" by (rule that)
  qed
  show ?case
  proof (cases "index s t")
    case (Some task)
    with Suc.prems have "run_cached task ?rec args s = Some q" by simp
    from step [OF this] Some show ?thesis by simp
  next
    case None
    obtain res w where h: "hook t (world s) = (res, w)" by (cases "hook t (world s)")
    define sh where "sh = s\<lparr>world := w, missing_log := missing_log s @ [t]\<rparr>"
    show ?thesis
    proof (cases res)
      case (Inl e)
      with Suc.prems None h show ?thesis by (cases e) (simp_all add: Let_def)
    next
      case (Inr found)
      show ?thesis
      proof (cases found)
        case (Existing task)
        with Suc.prems None h Inr have "run_cached task ?rec args sh = Some q"
          by (simp add: sh_def Let_def)
        from step [OF this] None h Inr Existing show ?thesis
          by (simp add: sh_def Let_def)
      next
        case (Synthesized tgts deps body)
        define sn where "sn = snd (new_task (Lazy tgts deps body) sh)"
        from Suc.prems None h Inr Synthesized
        have "run_cached (next_ref s) ?rec args sn = Some q"
          by (simp add: sh_def sn_def Let_def new_task_def)
        from step [OF this] None h Inr Synthesized show ?thesis
          by (simp add: sh_def sn_def Let_def new_task_def)
      qed
    qed
  qed
qed

subsection \<open>The interleaving model: one step, case by case\<close>










lemma moved_fields [simp]:
  "shared (moved c i th s' pc') = s'"
  "pool (moved c i th s' pc') j = (if j = i then Some (th\<lparr>at := pc'\<rparr>) else pool c j)"
  "next_tid (moved c i th s' pc') = next_tid c"
  by (simp_all add: moved_def)

lemma fan_out_fields [simp]:
  "shared (fan_out c i th self) = shared c"
  "next_tid (fan_out c i th self) = next_tid c + length (dependencies (heap (shared c) self))"
  "pool (fan_out c i th self) j =
     (if next_tid c \<le> j \<and> j < next_tid c + length (dependencies (heap (shared c) self))
      then Some \<lparr>ident = dependencies (heap (shared c) self) ! (j - next_tid c),
                 arguments = [], at = Call\<rparr>
      else if j = i
      then Some (th\<lparr>at := Waiting self
                 [next_tid c ..< next_tid c + length (dependencies (heap (shared c) self))]\<rparr>)
      else pool c j)"
  by (simp_all add: fan_out_def spawn_def Let_def)




subsection \<open>The interleaving model: every step keeps the invariants\<close>










subsection \<open>The interleaving model: every schedule keeps the invariants\<close>





subsection \<open>The interleaving model: the example schedules\<close>

lemmas interleaving_defs =
  advance_def callers_def moved_def fan_out_def join_def spawn_def finished_def
  find_task_def finish_run_def store_result_def diamond_def add_def empty_db_def Lazy_def
  set_lock_def set_result_def Let_def

lemma diamond_asyncio_reruns:
  "map_option (run_log \<circ> shared)
     (run_schedule on_missing diamond_asyncio (callers (diamond crashing) [(''a'', [])]))
   = Some [3, 3]"
  by (simp add: diamond_asyncio_def interleaving_defs crashing_def)





text \<open>
  Where the order of the event loop is not the order of the functions of the first part:
  in the kite the event loop runs \<open>''c''\<close> before \<open>''d''\<close> and \<open>''b''\<close>, and when \<open>''b''\<close> and \<open>''c''\<close>
  both raise, the caller gets the exception of \<open>''c''\<close>, the first in time, while \<open>''b''\<close> has
  not run. Both are executions of the interleaving model.
\<close>

lemma kite_orders:
  "map_option (run_log \<circ> snd) (LazyDB_run on_missing 3 ''a'' [] (kite counting counting))
     = Some [3, 1, 2, 0]"
  "map_option (run_log \<circ> shared)
     (run_schedule on_missing kite_asyncio (callers (kite counting counting) [(''a'', [])]))
     = Some [2, 3, 1, 0]"
  by (simp_all add: kite_def kite_asyncio_def interleaving_defs counting_def numeral_3_eq_3
      run_cached_def run_after_deps_def invoke_run_def)

lemma kite_exceptions:
  "map_option (\<lambda>p. (fst p, run_log (snd p)))
     (LazyDB_run on_missing 3 ''a'' [] (kite (raising ''boomB'') (raising ''boomC'')))
     = Some (Inl (OtherError ''boomB''), [3, 1, 2])"
  "map_option (\<lambda>c. (map_option at (pool c 0), map_option at (pool c 1), run_log (shared c)))
     (run_schedule on_missing kite_raise_asyncio
        (callers (kite (raising ''boomB'') (raising ''boomC'')) [(''a'', [])]))
     = Some (Some (Done (Inl (OtherError ''boomC''))), Some (Waiting 1 [3]), [2, 3])"
  by (simp_all add: kite_def kite_raise_asyncio_def interleaving_defs counting_def raising_def
      numeral_3_eq_3 run_cached_def run_after_deps_def invoke_run_def)

section \<open>The claims\<close>

subsection \<open>The dependency-failure branch\<close>

text \<open>
  Claim C2. If the dependencies have all been resolved (none raised) and at least one
  outcome is falsy, \<open>run_after_deps\<close> returns \<open>DependencyFailure\<close> whose task is this task
  and whose list holds exactly the falsy outcomes, in their order; the state is the one
  the dependencies left, so \<open>run()\<close> was not invoked.
\<close>

theorem dependency_failure_branch:
  assumes "gather recurse (dependencies (heap s self)) s = Some (map Inr dep_res, s1)"
    and "\<not> list_all truthy dep_res"
  shows "run_after_deps self recurse args s =
           Some (Inr (DependencyFailure self (filter (\<lambda>f. \<not> truthy f) dep_res)), s1)
         \<and> filter (\<lambda>f. \<not> truthy f) dep_res \<noteq> []
         \<and> subseq (filter (\<lambda>f. \<not> truthy f) dep_res) dep_res
         \<and> set (filter (\<lambda>f. \<not> truthy f) dep_res) = {f \<in> set dep_res. \<not> truthy f}
         \<and> (\<forall>r s'. run_after_deps self recurse args s = Some (r, s')
               \<longrightarrow> run_log s' = run_log s1 \<and> world s' = world s1)"
proof -
  have "run_after_deps self recurse args s =
           Some (Inr (DependencyFailure self (filter (\<lambda>f. \<not> truthy f) dep_res)), s1)"
    using assms by (simp add: run_after_deps_def await_all_values)
  moreover have "filter (\<lambda>f. \<not> truthy f) dep_res \<noteq> []"
    using assms(2) by (simp add: filter_empty_conv list_all_iff)
  ultimately show ?thesis by auto
qed

text \<open>Three dependencies, the middle one truthy: the two failures are listed, in order.\<close>

theorem dependency_failure_branch_witness:
  "gather only_b (dependencies (heap three_deps 0)) three_deps =
     Some (map Inr [MissingFailure ''u'', Ok 1 7, MissingFailure ''v''], three_deps)
   \<and> \<not> list_all truthy [MissingFailure ''u'', Ok 1 7 :: (string, nat) outcome, MissingFailure ''v'']
   \<and> run_after_deps 0 only_b [] three_deps =
     Some (Inr (DependencyFailure 0 [MissingFailure ''u'', MissingFailure ''v'']), three_deps)
   \<and> run_log three_deps = []"
  using dependency_failure_branch [of only_b three_deps 0
      "[MissingFailure ''u'', Ok 1 7, MissingFailure ''v'']" three_deps "[]"]
  by (simp add: three_deps_def empty_db_def Lazy_def only_b_def)

subsection \<open>The run branch\<close>

text \<open>
  Claim C3. If every dependency outcome is truthy, \<open>run_after_deps\<close> invokes \<open>run()\<close>.
  A returned value \<open>v\<close> gives \<open>Ok\<close> with this task and \<open>v\<close>; a raised \<open>TaskFailure\<close> is
  returned as the outcome, with the fields it was raised with; any other exception is
  raised by \<open>run_after_deps\<close> itself.
\<close>

theorem run_branch:
  assumes "gather recurse (dependencies (heap s self)) s = Some (map Inr dep_res, s1)"
    and "list_all truthy dep_res"
    and "run (heap s1 self) args (world s1) = (res, w)"
  shows "(\<forall>v. res = Inr v \<longrightarrow>
            run_after_deps self recurse args s =
              Some (Inr (Ok self v), s1\<lparr>world := w, run_log := run_log s1 @ [self]\<rparr>))
       \<and> (\<forall>t m. res = Inl (TaskFailureExn t m) \<longrightarrow>
            run_after_deps self recurse args s =
              Some (Inr (TaskFailure t m), s1\<lparr>world := w, run_log := run_log s1 @ [self]\<rparr>))
       \<and> (\<forall>e. res = Inl e \<and> (\<forall>t m. e \<noteq> TaskFailureExn t m) \<longrightarrow>
            run_after_deps self recurse args s =
              Some (Inl e, s1\<lparr>world := w, run_log := run_log s1 @ [self]\<rparr>))"
proof -
  have "run_after_deps self recurse args s = invoke_run self args s1"
    using assms(1,2) by (simp add: run_after_deps_def await_all_values)
  then show ?thesis
    using assms(3) by (auto simp: invoke_run_def Let_def split: exn.splits)
qed

text \<open>One task with a truthy dependency and each of the three kinds of body.\<close>

theorem run_branch_witness:
  "gather only_b (dependencies (heap (one_dep counting) 0)) (one_dep counting) =
     Some (map Inr [Ok 1 7], one_dep counting)
   \<and> list_all truthy [Ok 1 7 :: (string, nat) outcome]
   \<and> run_after_deps 0 only_b [] (one_dep counting) =
       Some (Inr (Ok 0 0), (one_dep counting)\<lparr>world := 1, run_log := [0]\<rparr>)
   \<and> run_after_deps 0 only_b [] (one_dep failing) =
       Some (Inr (TaskFailure ''b'' ''x''), (one_dep failing)\<lparr>world := 1, run_log := [0]\<rparr>)
   \<and> run_after_deps 0 only_b [] (one_dep crashing) =
       Some (Inl (OtherError ''boom''), (one_dep crashing)\<lparr>world := 1, run_log := [0]\<rparr>)"
  using run_branch [of only_b "one_dep counting" 0 "[Ok 1 7]" "one_dep counting" "[]" "Inr 0" 1]
    run_branch [of only_b "one_dep failing" 0 "[Ok 1 7]" "one_dep failing" "[]"
      "Inl (TaskFailureExn ''b'' ''x'')" 1]
    run_branch [of only_b "one_dep crashing" 0 "[Ok 1 7]" "one_dep crashing" "[]"
      "Inl (OtherError ''boom'')" 1]
  by (simp add: one_dep_def empty_db_def Lazy_def only_b_def counting_def failing_def crashing_def)

subsection \<open>Identifiers that are not registered\<close>

text \<open>
  Claim C4. For an identifier that is not in the index, \<open>LazyDB.run\<close> with the default
  \<open>on_missing\<close> returns \<open>MissingFailure(t)\<close> as a value, at every positive depth bound;
  so does an overriding hook that raises \<open>MissingDependency\<close>. If the hook returns a
  task, the call is that task's \<open>run_cached\<close>, with \<open>LazyDB.run\<close> as \<open>recurse\<close>.
\<close>

theorem missing_identifier_policy:
  assumes "index s t = None"
  shows "LazyDB_run on_missing (Suc n) t args s =
           Some (Inr (MissingFailure t), s\<lparr>missing_log := missing_log s @ [t]\<rparr>)
       \<and> (\<forall>hook w. hook t (world s) = (Inl MissingDependency, w) \<longrightarrow>
            LazyDB_run hook (Suc n) t args s =
              Some (Inr (MissingFailure t), s\<lparr>world := w, missing_log := missing_log s @ [t]\<rparr>))
       \<and> (\<forall>hook w task. hook t (world s) = (Inr (Existing task), w) \<longrightarrow>
            LazyDB_run hook (Suc n) t args s =
              run_cached task (\<lambda>dep. LazyDB_run hook n dep []) args
                (s\<lparr>world := w, missing_log := missing_log s @ [t]\<rparr>))
       \<and> (\<forall>hook w tgts deps body. hook t (world s) = (Inr (Synthesized tgts deps body), w) \<longrightarrow>
            LazyDB_run hook (Suc n) t args s =
              run_cached (next_ref s) (\<lambda>dep. LazyDB_run hook n dep []) args
                (snd (new_task (Lazy tgts deps body)
                   (s\<lparr>world := w, missing_log := missing_log s @ [t]\<rparr>))))"
  using assms by (simp add: on_missing_def Let_def new_task_def)

text \<open>The empty registry, with the default hook and with one that synthesizes leaves.\<close>

theorem missing_identifier_policy_witness:
  "index empty_db ''q'' = None
   \<and> LazyDB_run on_missing 1 ''q'' [] empty_db =
       Some (Inr (MissingFailure ''q''), empty_db\<lparr>missing_log := [''q'']\<rparr>)
   \<and> LazyDB_run leaf_hook 1 ''gone'' [] empty_db =
       Some (Inr (MissingFailure ''gone''), empty_db\<lparr>missing_log := [''gone'']\<rparr>)
   \<and> map_option fst (LazyDB_run leaf_hook 1 ''q'' [] empty_db) = Some (Inr (Ok 0 0))"
proof -
  have h: "index empty_db ''q'' = None" "index empty_db ''gone'' = None"
    by (simp_all add: empty_db_def)
  have w: "world empty_db = 0" by (simp add: empty_db_def)
  have s: "LazyDB_run leaf_hook 1 ''q'' [] empty_db =
      run_cached (next_ref empty_db) (\<lambda>dep. LazyDB_run leaf_hook 0 dep []) []
        (snd (new_task (Lazy [''q''] [] counting)
           (empty_db\<lparr>world := 0, missing_log := missing_log empty_db @ [''q'']\<rparr>)))"
    using missing_identifier_policy [OF h(1), of 0 "[]"]
    by (simp add: leaf_hook_def w del: LazyDB_run.simps)
  have g: "LazyDB_run leaf_hook 1 ''gone'' [] empty_db =
       Some (Inr (MissingFailure ''gone''), empty_db\<lparr>missing_log := [''gone'']\<rparr>)"
    using missing_identifier_policy [OF h(2), of 0 "[]"]
    by (simp add: leaf_hook_def w empty_db_def del: LazyDB_run.simps)
  have q: "LazyDB_run on_missing 1 ''q'' [] empty_db =
       Some (Inr (MissingFailure ''q''), empty_db\<lparr>missing_log := [''q'']\<rparr>)"
    using missing_identifier_policy [OF h(1), of 0 "[]"]
    by (simp add: empty_db_def del: LazyDB_run.simps)
  show ?thesis
    unfolding s using h(1) g q
    by (simp add: run_cached_def run_after_deps_def invoke_run_def store_result_def
        new_task_def empty_db_def Lazy_def counting_def Let_def del: LazyDB_run.simps)
qed

subsection \<open>The result accessor\<close>

text \<open>
  Claim C6. The property \<open>result\<close> raises if and only if the result cell is empty or
  holds a failure, and what it raises is a \<open>ValueError\<close>; when the cell holds
  \<open>Ok\<close> with value \<open>v\<close> it returns \<open>v\<close>.
\<close>

theorem result_raises_iff:
  "((\<exists>e. result self = Inl e) \<longleftrightarrow>
      (lazy_result self = None \<or> (\<exists>f. lazy_result self = Some f \<and> \<not> truthy f)))
   \<and> (\<forall>e. result self = Inl e \<longrightarrow> (\<exists>m. e = ValueError m))
   \<and> (\<forall>task v. lazy_result self = Some (Ok task v) \<longrightarrow> result self = Inr v)"
proof (cases "lazy_result self")
  case None
  then show ?thesis by (simp add: result_def)
next
  case (Some res)
  then show ?thesis by (cases res) (auto simp: result_def)
qed

text \<open>A task with an \<open>Ok\<close>, an empty and a failed cell.\<close>

theorem result_raises_iff_witness:
  "result ((Lazy [''a''] [] counting)\<lparr>lazy_result := Some (Ok 0 5)\<rparr>) = Inr 5
   \<and> (\<exists>m. result (Lazy [''a''] [] counting) = Inl (ValueError m))
   \<and> (\<exists>m. result ((Lazy [''a''] [] counting)\<lparr>lazy_result := Some (MissingFailure ''b'')\<rparr>)
          = Inl (ValueError m))"
  using result_raises_iff [of "(Lazy [''a''] [] counting)\<lparr>lazy_result := Some (Ok 0 5)\<rparr>"]
    result_raises_iff [of "Lazy [''a''] [] counting"]
    result_raises_iff [of "(Lazy [''a''] [] counting)\<lparr>lazy_result := Some (MissingFailure ''b'')\<rparr>"]
  by (auto simp: Lazy_def)

subsection \<open>Registration\<close>

text \<open>
  Claim C7. \<open>add(task)\<close> appends the task to \<open>tasks\<close> and points the index to it at each
  of its targets, leaving every other index entry as it was. When a second task with a
  common target is added, the index holds the second at that target, and both tasks
  are in \<open>tasks\<close>.
\<close>

theorem add_semantics:
  "tasks (add task s) = tasks s @ [task]
   \<and> (\<forall>t. index (add task s) t =
          (if t \<in> set (targets (heap s task)) then Some task else index s t))
   \<and> heap (add task s) = heap s
   \<and> (\<forall>other t. t \<in> set (targets (heap s task)) \<and> t \<in> set (targets (heap s other))
          \<longrightarrow> index (add other (add task s)) t = Some other
            \<and> tasks (add other (add task s)) = tasks s @ [task, other])"
  by (simp add: add_def fold_index_upd)

text \<open>Two tasks that both declare \<open>''x''\<close>.\<close>

theorem add_semantics_witness:
  "index (add 1 (add 0 two_tasks)) ''x'' = Some 1
   \<and> index (add 1 (add 0 two_tasks)) ''y'' = Some 0
   \<and> index (add 1 (add 0 two_tasks)) ''z'' = Some 1
   \<and> index (add 1 (add 0 two_tasks)) ''w'' = None
   \<and> tasks (add 1 (add 0 two_tasks)) = [0, 1]"
  using add_semantics [of 0 two_tasks] add_semantics [of 1 "add 0 two_tasks"]
  by (simp add: two_tasks_def empty_db_def Lazy_def)

subsection \<open>Bulk reset and clean\<close>

text \<open>
  Claim C8. \<open>LazyDB.reset\<close> empties the result cell of every task in \<open>tasks\<close> and leaves
  \<open>tasks\<close>, the index and every task's targets, dependencies, guard and body as they
  were; objects that are not in \<open>tasks\<close> are untouched. \<open>LazyDB.clean\<close> empties \<open>tasks\<close>
  and the index.
\<close>

theorem reset_frame:
  "(\<forall>x\<in>set (tasks s). lazy_result (heap (reset s) x) = None)
   \<and> tasks (reset s) = tasks s \<and> index (reset s) = index s
   \<and> (\<forall>x. targets (heap (reset s) x) = targets (heap s x)
          \<and> dependencies (heap (reset s) x) = dependencies (heap s x)
          \<and> lazy_lock (heap (reset s) x) = lazy_lock (heap s x)
          \<and> run (heap (reset s) x) = run (heap s x))
   \<and> (\<forall>x. x \<notin> set (tasks s) \<longrightarrow> heap (reset s) x = heap s x)
   \<and> tasks (clean s) = [] \<and> index (clean s) = Map.empty \<and> heap (clean s) = heap s"
  by (simp add: reset_def clean_def heap_fold_Lazy_reset fold_Lazy_reset_frame)

text \<open>Task 0 is registered and resolved; task 1 is resolved but was never added.\<close>

theorem reset_frame_witness:
  "lazy_result (heap resolved_tasks 0) = Some (Ok 0 5)
   \<and> lazy_result (heap (reset resolved_tasks) 0) = None
   \<and> lazy_result (heap (reset resolved_tasks) 1) = Some (TaskFailure ''b'' ''x'')
   \<and> tasks (reset resolved_tasks) = [0]
   \<and> index (reset resolved_tasks) ''y'' = Some 0
   \<and> targets (heap (reset resolved_tasks) 0) = [''x'', ''y'']
   \<and> tasks (clean resolved_tasks) = [] \<and> index (clean resolved_tasks) ''y'' = None"
  using reset_frame [of resolved_tasks]
  by (simp add: resolved_tasks_def two_tasks_def empty_db_def Lazy_def add_def)

subsection \<open>Memoization\<close>

text \<open>
  Claim C1. Once the result cell of a task holds an outcome, \<open>run_cached\<close> returns that
  outcome and leaves the whole state as it was, whatever \<open>recurse\<close> is: \<open>run()\<close> is not
  invoked and no dependency is resolved. It returns whenever the guard is free, and so
  does \<open>LazyDB.run\<close> for an identifier indexed to the task. No resolution through the
  registry changes the cell of an existing task that is occupied. \<open>Lazy.reset\<close> empties
  the cell.
\<close>

theorem memoization:
  assumes "lazy_result (heap s self) = Some r"
  shows "(\<not> lazy_lock (heap s self) \<longrightarrow> run_cached self recurse args s = Some (Inr r, s))
       \<and> (\<forall>out. run_cached self recurse args s = Some out \<longrightarrow> out = (Inr r, s))
       \<and> (\<forall>hook n t. \<not> lazy_lock (heap s self) \<and> index s t = Some self \<longrightarrow>
             LazyDB_run hook (Suc n) t args s = Some (Inr r, s))
       \<and> (\<forall>hook n t args' res s'.
             self < next_ref s \<and> LazyDB_run hook n t args' s = Some (res, s') \<longrightarrow>
               lazy_result (heap s' self) = Some r)
       \<and> lazy_result (heap (Lazy_reset self s) self) = None"
proof -
  have 1: "run_cached self recurse args s = (if lazy_lock (heap s self) then None else Some (Inr r, s))"
    for recurse :: "'a \<Rightarrow> ('a, 'b, 'c, 'd) call"
    using assms by (rule run_cached_occupied)
  have 2: "lazy_result (heap s' self) = Some r"
    if "self < next_ref s" and "LazyDB_run hook n t args' s = Some (res, s')"
    for hook n t args' res s'
    using LazyDB_run_evolves [OF that(2)] that(1) assms by (simp add: evolves_def)
  show ?thesis
    using 1 2 by (auto simp: Lazy_reset_def split: if_splits)
qed

text \<open>
  Task 0 is resolved once; resolving it again returns the same \<open>Ok\<close> and the same state,
  with one entry in the log of \<open>run()\<close> and the collaborators' counter at 1.
\<close>

theorem memoization_witness:
  "LazyDB_run on_missing 1 ''y'' [] (add 0 two_tasks) = Some (Inr (Ok 0 0), after_first)
   \<and> lazy_result (heap after_first 0) = Some (Ok 0 0)
   \<and> run_cached 0 only_b [] after_first = Some (Inr (Ok 0 0), after_first)
   \<and> LazyDB_run on_missing 1 ''y'' [] after_first = Some (Inr (Ok 0 0), after_first)
   \<and> run_log after_first = [0] \<and> world after_first = 1
   \<and> lazy_result (heap (Lazy_reset 0 after_first) 0) = None"
proof -
  have c: "lazy_result (heap after_first 0) = Some (Ok 0 0)"
    by (simp add: after_first_def)
  have f: "\<not> lazy_lock (heap after_first 0)" "index after_first ''y'' = Some 0"
    "run_log after_first = [0]" "world after_first = 1"
    by (simp_all add: after_first_def add_fields two_tasks_fields Lazy_def)
  have m: "LazyDB_run on_missing (Suc 0) ''y'' [] after_first = Some (Inr (Ok 0 0), after_first)"
    using memoization [OF c, of only_b "[]"] f(1,2) by blast
  have r: "run_cached 0 only_b [] after_first = Some (Inr (Ok 0 0), after_first)"
    "lazy_result (heap (Lazy_reset 0 after_first) 0) = None"
    using memoization [OF c, of only_b "[]"] f(1) by blast+
  show ?thesis
    using c f(3,4) m r first_resolution by (simp only: One_nat_def simp_thms)
qed

subsection \<open>An unexpected exception from \<open>run()\<close>\<close>

text \<open>
  Claim C9. Let an existing task have a free guard and an empty cell, let its dependencies
  resolve to truthy outcomes, and let its \<open>run()\<close> raise an exception other than
  \<open>TaskFailure\<close>. Then \<open>run_cached\<close> raises that exception, the cell is still empty and the
  guard is free, and a later \<open>run_cached\<close> on that state takes the uncached path again:
  it is \<open>run_after_deps\<close> under the guard, followed by storing the outcome.
\<close>

theorem defect_leaves_cell_empty:
  assumes "self < next_ref s" and "\<not> lazy_lock (heap s self)"
    and "lazy_result (heap s self) = None"
    and "gather (\<lambda>dep. LazyDB_run hook n dep []) (dependencies (heap s self))
           (set_lock self True s) = Some (map Inr dep_res, s1)"
    and "list_all truthy dep_res"
    and "run (heap s self) args (world s1) = (Inl e, w)"
    and "\<forall>t m. e \<noteq> TaskFailureExn t m"
  shows "\<exists>s'. run_cached self (\<lambda>dep. LazyDB_run hook n dep []) args s = Some (Inl e, s')
       \<and> lazy_result (heap s' self) = None \<and> \<not> lazy_lock (heap s' self)
       \<and> run_log s' = run_log s1 @ [self]
       \<and> (\<forall>recurse args'. run_cached self recurse args' s' =
             map_option (store_result self)
               (run_after_deps self recurse args' (set_lock self True s')))"
proof -
  let ?rec = "\<lambda>dep. LazyDB_run hook n dep []"
  let ?s0 = "set_lock self True s"
  have ev: "evolves ?s0 s1"
    using assms(4) by (rule gather_evolves [rotated]) (rule LazyDB_run_evolves)
  have held: "lazy_lock (heap ?s0 self)" "self < next_ref ?s0" by (simp_all add: assms(1))
  from ev held have keep: "run (heap s1 self) = run (heap s self)"
    "lazy_result (heap s1 self) = None" "lazy_lock (heap s1 self)"
    using assms(3) by (simp_all add: evolves_def)
  let ?s2 = "s1\<lparr>world := w, run_log := run_log s1 @ [self]\<rparr>"
  have inv: "invoke_run self args s1 = Some (Inl e, ?s2)"
    using assms(6,7) keep(1) by (auto simp: invoke_run_def Let_def split: exn.splits)
  have rad: "run_after_deps self ?rec args ?s0 = Some (Inl e, ?s2)"
    using assms(4,5) inv by (simp add: run_after_deps_def await_all_values)
  let ?s' = "set_lock self False ?s2"
  have rc: "run_cached self ?rec args s = Some (Inl e, ?s')"
    using assms(2,3) rad by (simp add: run_cached_def Let_def store_result_def)
  have cell: "lazy_result (heap ?s' self) = None" "\<not> lazy_lock (heap ?s' self)"
    "run_log ?s' = run_log s1 @ [self]"
    using keep(2) by simp_all
  have again: "run_cached self recurse args' ?s' =
      map_option (store_result self) (run_after_deps self recurse args' (set_lock self True ?s'))"
    for recurse args'
    using cell(2,1) by (rule run_cached_empty)
  show ?thesis
    using rc cell again by blast
qed

text \<open>
  Task 0 depends on \<open>''b''\<close>, which \<open>leaf_hook\<close> synthesizes and which succeeds; its own
  body raises \<open>OtherError\<close>.
\<close>

theorem defect_leaves_cell_empty_witness:
  "gather (\<lambda>dep. LazyDB_run leaf_hook 1 dep []) (dependencies (heap (one_dep crashing) 0))
       (set_lock 0 True (one_dep crashing)) = Some (map Inr [Ok 1 0], crash_mid)
   \<and> run (heap (one_dep crashing) 0) [] (world crash_mid) = (Inl (OtherError ''boom''), 2)
   \<and> (\<exists>s'. run_cached 0 (\<lambda>dep. LazyDB_run leaf_hook 1 dep []) [] (one_dep crashing)
               = Some (Inl (OtherError ''boom''), s')
          \<and> lazy_result (heap s' 0) = None \<and> \<not> lazy_lock (heap s' 0) \<and> run_log s' = [1, 0])"
proof -
  let ?s = "one_dep crashing"
  have g: "gather (\<lambda>dep. LazyDB_run leaf_hook (Suc 0) dep []) (dependencies (heap ?s 0))
       (set_lock 0 True ?s) = Some (map Inr [Ok 1 0], crash_mid)"
    using leaf_hook_run [of "set_lock 0 True ?s" "''b''" 0 "[]"]
    by (simp add: one_dep_fields Lazy_def crash_mid_def del: LazyDB_run.simps)
  have r: "run (heap ?s 0) [] (world crash_mid) = (Inl (OtherError ''boom''), 2)"
    by (simp add: one_dep_fields Lazy_def crash_mid_def leaf_step_fields crashing_def)
  have l: "run_log crash_mid = [1]"
    by (simp add: crash_mid_def leaf_step_fields one_dep_fields)
  have "\<exists>s'. run_cached 0 (\<lambda>dep. LazyDB_run leaf_hook (Suc 0) dep []) [] ?s
               = Some (Inl (OtherError ''boom''), s')
          \<and> lazy_result (heap s' 0) = None \<and> \<not> lazy_lock (heap s' 0)
          \<and> run_log s' = run_log crash_mid @ [0]"
    using defect_leaves_cell_empty [of 0 ?s leaf_hook "Suc 0" "[Ok 1 0]" crash_mid "[]"
        "OtherError ''boom''" 2] g r
    by (simp add: one_dep_fields Lazy_def del: LazyDB_run.simps) blast
  with g r l show ?thesis by (simp del: LazyDB_run.simps)
qed

subsection \<open>Tasks synthesized by \<open>on_missing\<close>\<close>

text \<open>
  Claim C10. Let \<open>t\<close> be unregistered and let \<open>on_missing\<close> construct a task for it, at
  two successive calls of \<open>LazyDB.run\<close>. Neither call changes \<open>tasks\<close> or the index, so
  \<open>t\<close> is still unregistered at the second call; each call invokes \<open>on_missing\<close>; the
  second call resolves a new object, not the one of the first call; if the tasks are
  leaves, \<open>run()\<close> has been executed at each call; and \<open>LazyDB.reset\<close> leaves both
  objects as they are, the outcome of the first still in its cell.
\<close>

theorem synthesized_never_registered:
  assumes "\<forall>x\<in>set (tasks s). x < next_ref s"
    and "index s t = None"
    and "hook t (world s) = (Inr (Synthesized tgts deps body), w)"
    and "LazyDB_run hook (Suc n) t args s = Some (res, s')"
    and "hook t (world s') = (Inr (Synthesized tgts2 deps2 body2), w2)"
    and "LazyDB_run hook (Suc m) t args2 s' = Some (res2, s'')"
  shows "tasks s' = tasks s \<and> index s' = index s \<and> index s' t = None
       \<and> tasks s'' = tasks s \<and> index s'' = index s
       \<and> prefix (missing_log s @ [t]) (missing_log s')
       \<and> prefix (missing_log s' @ [t]) (missing_log s'')
       \<and> LazyDB_run hook (Suc m) t args2 s' =
           run_cached (next_ref s') (\<lambda>dep. LazyDB_run hook m dep []) args2
             (snd (new_task (Lazy tgts2 deps2 body2)
                (s'\<lparr>world := w2, missing_log := missing_log s' @ [t]\<rparr>)))
       \<and> next_ref s < next_ref s'
       \<and> (deps = [] \<and> deps2 = [] \<longrightarrow> run_log s'' = run_log s @ [next_ref s, next_ref s'])
       \<and> (\<forall>out. res = Inr out \<longrightarrow> lazy_result (heap s'' (next_ref s)) = Some out)
       \<and> heap (reset s'') (next_ref s) = heap s'' (next_ref s)
       \<and> heap (reset s'') (next_ref s') = heap s'' (next_ref s')"
proof -
  note a = synthesized_call [OF assms(1,2,3,4)]
  from a assms(2) have un': "index s' t = None" by simp
  from a have wf': "\<forall>x\<in>set (tasks s'). x < next_ref s'" by blast
  note b = synthesized_call [OF wf' un' assms(5,6)]
  have ev: "evolves s' s''" using assms(6) by (rule LazyDB_run_evolves)
  have keep: "lazy_result (heap s'' (next_ref s)) = Some out" if "res = Inr out" for out
  proof -
    from a that have "lazy_result (heap s' (next_ref s)) = Some out" by blast
    moreover from a have "next_ref s < next_ref s'" by blast
    ultimately show ?thesis using ev by (simp add: evolves_def)
  qed
  have notin: "next_ref s \<notin> set (tasks s'')" "next_ref s' \<notin> set (tasks s'')"
    using a b by auto
  have untouched: "heap (reset s'') x = heap s'' x" if "x \<notin> set (tasks s'')" for x
    using that by (simp add: reset_def heap_fold_Lazy_reset)
  have call2: "LazyDB_run hook (Suc m) t args2 s' =
           run_cached (next_ref s') (\<lambda>dep. LazyDB_run hook m dep []) args2
             (snd (new_task (Lazy tgts2 deps2 body2)
                (s'\<lparr>world := w2, missing_log := missing_log s' @ [t]\<rparr>)))"
    using un' assms(5) by (rule LazyDB_run_synthesized)
  have logs: "run_log s'' = run_log s @ [next_ref s, next_ref s']" if "deps = []" "deps2 = []"
    using a b that by simp
  show ?thesis
    using a b un' keep untouched [OF notin(1)] untouched [OF notin(2)] call2 logs
    by (simp del: LazyDB_run.simps)
qed

text \<open>The empty registry with \<open>leaf_hook\<close>, resolving \<open>''q''\<close> twice.\<close>

theorem synthesized_never_registered_witness:
  "tasks empty_db = [] \<and> index empty_db ''q'' = None
   \<and> LazyDB_run leaf_hook 1 ''q'' [] empty_db = Some (Inr (Ok 0 0), leaf_step ''q'' empty_db)
   \<and> LazyDB_run leaf_hook 1 ''q'' [] (leaf_step ''q'' empty_db) =
       Some (Inr (Ok 1 1), leaf_step ''q'' (leaf_step ''q'' empty_db))
   \<and> tasks (leaf_step ''q'' (leaf_step ''q'' empty_db)) = []
   \<and> index (leaf_step ''q'' (leaf_step ''q'' empty_db)) ''q'' = None
   \<and> missing_log (leaf_step ''q'' (leaf_step ''q'' empty_db)) = [''q'', ''q'']
   \<and> run_log (leaf_step ''q'' (leaf_step ''q'' empty_db)) = [0, 1]
   \<and> lazy_result (heap (reset (leaf_step ''q'' (leaf_step ''q'' empty_db))) 0) = Some (Ok 0 0)
   \<and> lazy_result (heap (reset (leaf_step ''q'' (leaf_step ''q'' empty_db))) 1) = Some (Ok 1 1)"
proof -
  let ?s1 = "leaf_step ''q'' empty_db"
  let ?s2 = "leaf_step ''q'' ?s1"
  have wf: "\<forall>x\<in>set (tasks empty_db). x < next_ref empty_db" by (simp add: empty_db_fields)
  have un: "index empty_db ''q'' = None" by (simp add: empty_db_fields)
  have h1: "leaf_hook ''q'' (world empty_db) = (Inr (Synthesized [''q''] [] counting), 0)"
    by (simp add: leaf_hook_def empty_db_fields)
  have r1: "LazyDB_run leaf_hook (Suc 0) ''q'' [] empty_db = Some (Inr (Ok 0 0), ?s1)"
    using leaf_hook_run [OF un, of 0 "[]"] by (simp add: empty_db_fields del: LazyDB_run.simps)
  have h2: "leaf_hook ''q'' (world ?s1) = (Inr (Synthesized [''q''] [] counting), 1)"
    by (simp add: leaf_hook_def leaf_step_fields empty_db_fields)
  have r2: "LazyDB_run leaf_hook (Suc 0) ''q'' [] ?s1 = Some (Inr (Ok 1 1), ?s2)"
    using leaf_hook_run [of ?s1 "''q''" 0 "[]"]
    by (simp add: leaf_step_fields empty_db_fields del: LazyDB_run.simps)
  note t = synthesized_never_registered [OF wf un h1 r1 h2 r2]
  have c0: "lazy_result (heap ?s2 0) = Some (Ok 0 0)" "lazy_result (heap ?s2 1) = Some (Ok 1 1)"
    by (simp_all add: leaf_step_fields empty_db_fields)
  have n: "next_ref empty_db = 0" "next_ref ?s1 = 1"
    by (simp_all add: leaf_step_fields empty_db_fields)
  from t have "heap (reset ?s2) (next_ref empty_db) = heap ?s2 (next_ref empty_db)"
    "heap (reset ?s2) (next_ref ?s1) = heap ?s2 (next_ref ?s1)" by blast+
  with c0 n have c: "lazy_result (heap (reset ?s2) 0) = Some (Ok 0 0)"
    "lazy_result (heap (reset ?s2) 1) = Some (Ok 1 1)" by simp_all
  from t n have l: "run_log ?s2 = run_log empty_db @ [0, 1]" by simp
  from t have ti: "tasks ?s2 = tasks empty_db" "index ?s2 = index empty_db" by blast+
  have ml: "missing_log ?s2 = [''q'', ''q'']" by (simp add: leaf_step_fields empty_db_fields)
  show ?thesis
    using un r1 r2 c l ti ml
    by (simp add: empty_db_fields del: LazyDB_run.simps)
qed

subsection \<open>At most one execution of \<open>run()\<close>\<close>




end
